theory Spec2Isabelle
  imports Main "HOL-Library.Word"
begin

section \<open>Text and number formatting\<close>

text \<open>
  The encoder of \<^verbatim>\<open>convert2lineprotocol.cpp\<close> assembles \<^verbatim>\<open>std::u16string\<close> values: sequences
  of 16-bit code units. \<open>u16\<close> stands for the literal prefix \<^verbatim>\<open>u"..."\<close> of the source.
\<close>

type_synonym char16 = "16 word"
type_synonym u16string = "char16 list"

definition u16 :: "string \<Rightarrow> u16string" where
  "u16 s = map of_char s"

text \<open>
  \<^verbatim>\<open>std::to_wstring\<close> of an integer type prints the value in decimal, with a leading minus
  sign for a negative value; the source copies the wide characters into a
  \<^verbatim>\<open>std::u16string\<close> unchanged.
\<close>

fun dec_digits :: "nat \<Rightarrow> u16string" where
  "dec_digits n =
     (if n < 10 then [of_nat (48 + n)]
      else dec_digits (n div 10) @ [of_nat (48 + n mod 10)])"

declare dec_digits.simps [simp del]

definition to_wstring_int :: "int \<Rightarrow> u16string" where
  "to_wstring_int x =
     (if x < 0 then u16 ''-'' @ dec_digits (nat (- x)) else dec_digits (nat x))"

text \<open>
  A \<^verbatim>\<open>double\<close> is either finite, with a sign and the magnitude \<open>m * 2 ^ e\<close>, or an infinity, or
  a NaN. \<^verbatim>\<open>std::isfinite\<close> holds of the first kind only. A \<^verbatim>\<open>float\<close> converts to \<^verbatim>\<open>double\<close>
  without loss, so one type serves both precisions.
\<close>

datatype double = Finite bool nat int | Infinite bool | NaN

fun isfinite :: "double \<Rightarrow> bool" where
  "isfinite (Finite sg m e) = True"
| "isfinite (Infinite sg) = False"
| "isfinite NaN = False"

text \<open>
  \<^verbatim>\<open>std::to_wstring(double)\<close> is defined by the C++ standard as \<^verbatim>\<open>swprintf\<close> with the format
  \<^verbatim>\<open>%f\<close>: fixed notation with exactly six digits after the decimal point, the exact value
  rounded to nearest, ties to even. \<open>scaled6 m e\<close> is \<open>m * 2 ^ e * 10 ^ 6\<close> so rounded.
\<close>

definition scaled6 :: "nat \<Rightarrow> int \<Rightarrow> nat" where
  "scaled6 m e =
     (if 0 \<le> e then m * 2 ^ nat e * 1000000
      else (let n = m * 1000000; d = 2 ^ nat (- e); q = n div d; r = n mod d
            in if d < 2 * r \<or> (2 * r = d \<and> odd q) then q + 1 else q))"

definition frac6 :: "nat \<Rightarrow> u16string" where
  "frac6 f = replicate (6 - length (dec_digits f)) (of_nat 48) @ dec_digits f"

definition to_wstring_double :: "bool \<Rightarrow> nat \<Rightarrow> int \<Rightarrow> u16string" where
  "to_wstring_double sg m e =
     (let q = scaled6 m e
      in (if sg then u16 ''-'' else []) @ dec_digits (q div 1000000) @ u16 ''.''
           @ frac6 (q mod 1000000))"

section \<open>Columns of the data cell array\<close>

text \<open>
  \<^verbatim>\<open>data\<close> is a cell array of columns; \<^verbatim>\<open>col.getType()\<close> is the constructor. \<open>OTHER\<close> stands
  for every array type that neither switch of the source names (logical, char, struct,
  complex numbers, ...). An element of a \<open>CELL\<close> column is itself an array: the source
  converts it to a \<^verbatim>\<open>CharArrayRef\<close>, which the MATLAB data API refuses for an array that is
  not a char array.
\<close>

datatype cell = CharArray u16string | OtherArray

datatype column =
    INT8 "8 word list" | UINT8 "8 word list"
  | INT16 "16 word list" | UINT16 "16 word list"
  | INT32 "32 word list" | UINT32 "32 word list"
  | INT64 "64 word list" | UINT64 "64 word list"
  | CELL "cell list" | MATLAB_STRING "u16string list"
  | DOUBLE "double list" | SINGLE "double list"
  | OTHER

text \<open>
  What can stop the call: an index outside an array and a conversion to the wrong element
  type are exceptions of the MATLAB data API; \<^verbatim>\<open>pop_back\<close> on an empty string has no defined
  behaviour.
\<close>

datatype mex_error = InvalidArrayIndex | InvalidArrayType | PopBackOnEmpty

definition at :: "'a list \<Rightarrow> nat \<Rightarrow> mex_error + 'a" where
  "at xs i = (if i < length xs then Inr (xs ! i) else Inl InvalidArrayIndex)"

definition toUTF16 :: "cell \<Rightarrow> mex_error + u16string" where
  "toUTF16 c = (case c of CharArray s \<Rightarrow> Inr s | OtherArray \<Rightarrow> Inl InvalidArrayType)"

section \<open>One row\<close>

text \<open>
  The variables of one iteration of the row loop. \<open>popped\<close> is a history variable, not a
  variable of the program: it records every character that \<^verbatim>\<open>rowStr.pop_back()\<close> removes, and
  nothing reads it.
\<close>

record row_state =
  rowStr :: u16string
  addRow :: bool
  nanNum :: int
  colIndx :: nat
  popped :: "char16 list"

text \<open>The switch of the tag loop (lines 52-70): the text it appends to \<^verbatim>\<open>rowStr\<close>.\<close>

definition tag_switch :: "column \<Rightarrow> nat \<Rightarrow> mex_error + u16string" where
  "tag_switch col iRow =
     (case col of
        CELL cs \<Rightarrow> (case at cs iRow of Inl err \<Rightarrow> Inl err | Inr c \<Rightarrow> toUTF16 c)
      | MATLAB_STRING ss \<Rightarrow> at ss iRow
      | _ \<Rightarrow> Inr [])"

text \<open>
  The tag loop (lines 48-74). The iterator \<^verbatim>\<open>it\<close> is the list of names still to visit;
  \<^verbatim>\<open>it == lastTag\<close> holds when no name follows the current one.
\<close>

fun tag_loop :: "column list \<Rightarrow> nat \<Rightarrow> u16string list \<Rightarrow> row_state \<Rightarrow> mex_error + row_state" where
  "tag_loop data iRow [] s = Inr s"
| "tag_loop data iRow (name # rest) s =
     (let s1 = s\<lparr>rowStr := rowStr s @ name @ u16 ''='', colIndx := colIndx s + 1\<rparr>
      in case at data (colIndx s1) of
           Inl err \<Rightarrow> Inl err
         | Inr col \<Rightarrow>
             (case tag_switch col iRow of
                Inl err \<Rightarrow> Inl err
              | Inr entry \<Rightarrow>
                  tag_loop data iRow rest
                    (s1\<lparr>rowStr := rowStr s1 @ entry @ (if rest = [] then u16 '' '' else u16 '','')\<rparr>)))"

text \<open>
  The switch of the field loop (lines 82-169): \<open>Some\<close> of the text that follows \<^verbatim>\<open>temp\<close> in
  the cases that append to \<^verbatim>\<open>rowStr\<close>, \<open>None\<close> in the two cases that set \<^verbatim>\<open>is_nan\<close>.
\<close>

definition field_switch :: "column \<Rightarrow> nat \<Rightarrow> mex_error + u16string option" where
  \<open>field_switch col iRow =
     (case col of
        INT8 xs \<Rightarrow> (case at xs iRow of Inl err \<Rightarrow> Inl err
                   | Inr entry \<Rightarrow> Inr (Some (to_wstring_int (sint entry) @ u16 ''i'')))
      | UINT8 xs \<Rightarrow> (case at xs iRow of Inl err \<Rightarrow> Inl err
                   | Inr entry \<Rightarrow> Inr (Some (to_wstring_int (uint entry) @ u16 ''u'')))
      | INT16 xs \<Rightarrow> (case at xs iRow of Inl err \<Rightarrow> Inl err
                   | Inr entry \<Rightarrow> Inr (Some (to_wstring_int (sint entry) @ u16 ''i'')))
      | UINT16 xs \<Rightarrow> (case at xs iRow of Inl err \<Rightarrow> Inl err
                   | Inr entry \<Rightarrow> Inr (Some (to_wstring_int (uint entry) @ u16 ''u'')))
      | INT32 xs \<Rightarrow> (case at xs iRow of Inl err \<Rightarrow> Inl err
                   | Inr entry \<Rightarrow> Inr (Some (to_wstring_int (sint entry) @ u16 ''i'')))
      | UINT32 xs \<Rightarrow> (case at xs iRow of Inl err \<Rightarrow> Inl err
                   | Inr entry \<Rightarrow> Inr (Some (to_wstring_int (uint entry) @ u16 ''u'')))
      | INT64 xs \<Rightarrow> (case at xs iRow of Inl err \<Rightarrow> Inl err
                   | Inr entry \<Rightarrow> Inr (Some (to_wstring_int (sint entry) @ u16 ''i'')))
      | UINT64 xs \<Rightarrow> (case at xs iRow of Inl err \<Rightarrow> Inl err
                   | Inr entry \<Rightarrow> Inr (Some (to_wstring_int (uint entry) @ u16 ''u'')))
      | CELL cs \<Rightarrow> (case at cs iRow of Inl err \<Rightarrow> Inl err
                   | Inr c \<Rightarrow> (case toUTF16 c of Inl err \<Rightarrow> Inl err
                       | Inr strEntry \<Rightarrow> Inr (Some (u16 ''"'' @ strEntry @ u16 ''"''))))
      | MATLAB_STRING ss \<Rightarrow> (case at ss iRow of Inl err \<Rightarrow> Inl err
                   | Inr entry \<Rightarrow> Inr (Some (u16 ''"'' @ entry @ u16 ''"'')))
      | DOUBLE xs \<Rightarrow> (case at xs iRow of Inl err \<Rightarrow> Inl err
                   | Inr entry \<Rightarrow> (case entry of
                         Finite sg m e \<Rightarrow> Inr (Some (to_wstring_double sg m e))
                       | _ \<Rightarrow> Inr None))
      | SINGLE xs \<Rightarrow> (case at xs iRow of Inl err \<Rightarrow> Inl err
                   | Inr entry \<Rightarrow> (case entry of
                         Finite sg m e \<Rightarrow> Inr (Some (to_wstring_double sg m e))
                       | _ \<Rightarrow> Inr None))
      | OTHER \<Rightarrow> Inr None)\<close>

text \<open>
  Lines 150-153 and 164-166: count the missing field and clear \<^verbatim>\<open>addRow\<close> when the count
  has reached the number of field names.
\<close>

definition mark_missing :: "nat \<Rightarrow> row_state \<Rightarrow> row_state" where
  "mark_missing nFields s =
     (let n = nanNum s + 1
      in s\<lparr>nanNum := n, addRow := (if int nFields = n then False else addRow s)\<rparr>)"

text \<open>Lines 170-176: the separator after a field.\<close>

definition field_sep :: "bool \<Rightarrow> bool \<Rightarrow> row_state \<Rightarrow> mex_error + row_state" where
  "field_sep is_last is_nan s =
     (if is_last \<and> is_nan then
        (if rowStr s = [] then Inl PopBackOnEmpty
         else Inr (s\<lparr>rowStr := butlast (rowStr s) @ u16 '' '',
                     popped := popped s @ [last (rowStr s)]\<rparr>))
      else if is_last then Inr (s\<lparr>rowStr := rowStr s @ u16 '' ''\<rparr>)
      else if \<not> is_nan then Inr (s\<lparr>rowStr := rowStr s @ u16 '',''\<rparr>)
      else Inr s)"

text \<open>One iteration of the field loop (lines 77-176).\<close>

definition field_step ::
  "column list \<Rightarrow> nat \<Rightarrow> nat \<Rightarrow> bool \<Rightarrow> u16string \<Rightarrow> row_state \<Rightarrow> mex_error + row_state" where
  "field_step data iRow nFields is_last name s =
     (let temp = name @ u16 ''=''; s1 = s\<lparr>colIndx := colIndx s + 1\<rparr>
      in case at data (colIndx s1) of
           Inl err \<Rightarrow> Inl err
         | Inr col \<Rightarrow>
             (case field_switch col iRow of
                Inl err \<Rightarrow> Inl err
              | Inr (Some tok) \<Rightarrow> field_sep is_last False (s1\<lparr>rowStr := rowStr s1 @ temp @ tok\<rparr>)
              | Inr None \<Rightarrow> field_sep is_last True (mark_missing nFields s1)))"

text \<open>
  The field loop (lines 76-177); \<^verbatim>\<open>it == lastMinusOne\<close> holds when no name follows the
  current one. \<open>nFields\<close> is \<^verbatim>\<open>fieldNames.end() - fieldNames.begin()\<close>.
\<close>

fun field_loop ::
  "column list \<Rightarrow> nat \<Rightarrow> nat \<Rightarrow> u16string list \<Rightarrow> row_state \<Rightarrow> mex_error + row_state" where
  "field_loop data iRow nFields [] s = Inr s"
| "field_loop data iRow nFields (name # rest) s =
     (case field_step data iRow nFields (rest = []) name s of
        Inl err \<Rightarrow> Inl err
      | Inr s' \<Rightarrow> field_loop data iRow nFields rest s')"

section \<open>The whole call\<close>

text \<open>
  The arguments of the MEX function. \<open>measurement\<close> is the first element of the string
  array \<^verbatim>\<open>inputs[0]\<close>; the names are the elements of \<^verbatim>\<open>inputs[1]\<close> and \<^verbatim>\<open>inputs[2]\<close>. A row index
  below \<open>endRow\<close> cannot wrap when it is incremented, so the two bounds are natural numbers.
\<close>

record inputs =
  measurement :: u16string
  fieldNames :: "u16string list"
  tagNames :: "u16string list"
  data :: "column list"
  startRow :: nat
  endRow :: nat

text \<open>Lines 38-44: the row buffer before the tag loop.\<close>

definition row_init :: "inputs \<Rightarrow> row_state" where
  "row_init inp =
     \<lparr>rowStr = measurement inp @ (if tagNames inp = [] then u16 '' '' else u16 '',''),
      addRow = True, nanNum = 0, colIndx = 0, popped = []\<rparr>"

text \<open>Lines 38-177: the state of a row after both loops.\<close>

definition row_build :: "inputs \<Rightarrow> nat \<Rightarrow> mex_error + row_state" where
  "row_build inp iRow =
     (case tag_loop (data inp) iRow (tagNames inp) (row_init inp) of
        Inl err \<Rightarrow> Inl err
      | Inr s1 \<Rightarrow> field_loop (data inp) iRow (length (fieldNames inp)) (fieldNames inp) s1)"

text \<open>
  Lines 38-183: what one iteration appends to \<^verbatim>\<open>res\<close>; \<open>None\<close> when \<^verbatim>\<open>addRow\<close> is false.
\<close>

definition encode_row :: "inputs \<Rightarrow> 64 word list \<Rightarrow> nat \<Rightarrow> mex_error + u16string option" where
  "encode_row inp timeDataArray iRow =
     (case row_build inp iRow of
        Inl err \<Rightarrow> Inl err
      | Inr s \<Rightarrow>
          if addRow s then
            (case at timeDataArray iRow of
               Inl err \<Rightarrow> Inl err
             | Inr t \<Rightarrow> Inr (Some (rowStr s @ to_wstring_int (sint t) @ u16 ''\<newline>'')))
          else Inr None)"

text \<open>The row loop (lines 37-184), from row \<open>iRow\<close> on, with the text accumulated so far.\<close>

function row_loop :: "inputs \<Rightarrow> 64 word list \<Rightarrow> nat \<Rightarrow> u16string \<Rightarrow> mex_error + u16string" where
  "row_loop inp timeDataArray iRow res =
     (if iRow < endRow inp then
        (case encode_row inp timeDataArray iRow of
           Inl err \<Rightarrow> Inl err
         | Inr None \<Rightarrow> row_loop inp timeDataArray (iRow + 1) res
         | Inr (Some line) \<Rightarrow> row_loop inp timeDataArray (iRow + 1) (res @ line))
      else Inr res)"
  by pat_completeness auto
termination
  by (relation "measure (\<lambda>(inp, t, iRow, res). endRow inp - iRow)") auto

declare row_loop.simps [simp del]

text \<open>
  Line 27: \<^verbatim>\<open>data[0]\<close> must be an array of \<^verbatim>\<open>int64_t\<close>, the time column.
\<close>

definition time_column :: "inputs \<Rightarrow> mex_error + 64 word list" where
  "time_column inp =
     (case at (data inp) 0 of
        Inl err \<Rightarrow> Inl err
      | Inr col \<Rightarrow> (case col of INT64 ts \<Rightarrow> Inr ts | _ \<Rightarrow> Inl InvalidArrayType))"

text \<open>The call (lines 14-190): the text handed back in \<^verbatim>\<open>outputs[0]\<close>.\<close>

definition convert2lineprotocol :: "inputs \<Rightarrow> mex_error + u16string" where
  "convert2lineprotocol inp =
     (case time_column inp of
        Inl err \<Rightarrow> Inl err
      | Inr ts \<Rightarrow> row_loop inp ts (startRow inp) [])"

section \<open>Lines as the line protocol describes them\<close>

text \<open>
  The definitions of this section are not part of the program. They say what a line is made
  of (a prefix, pairs, separators) in the terms of the specification, so that the text the
  loops build can be compared with it. \<open>tag_text\<close> and \<open>field_text\<close> read a column through
  the two switches of the source; the functions whose name starts with \<open>spec\<close> and the
  functions on kinds of column follow the wording of the specification alone.
\<close>

text \<open>Joining texts with a separator between neighbours.\<close>

fun join :: "u16string \<Rightarrow> u16string list \<Rightarrow> u16string" where
  "join sep [] = []"
| "join sep [x] = x"
| "join sep (x # y # ys) = x @ sep @ join sep (y # ys)"

text \<open>What the switch of the tag loop appends for column \<open>c\<close> of \<^verbatim>\<open>data\<close>.\<close>

definition tag_text :: "column list \<Rightarrow> nat \<Rightarrow> nat \<Rightarrow> mex_error + u16string" where
  "tag_text cols iRow c = (case at cols c of Inl err \<Rightarrow> Inl err | Inr col \<Rightarrow> tag_switch col iRow)"

text \<open>What the switch of the field loop yields for column \<open>c\<close> of \<^verbatim>\<open>data\<close>.\<close>

definition field_text :: "column list \<Rightarrow> nat \<Rightarrow> nat \<Rightarrow> mex_error + u16string option" where
  "field_text cols iRow c = (case at cols c of Inl err \<Rightarrow> Inl err | Inr col \<Rightarrow> field_switch col iRow)"

text \<open>The \<open>name=value\<close> pairs of the tag columns that follow column \<open>c\<close>, in order.\<close>

fun tag_pairs :: "column list \<Rightarrow> nat \<Rightarrow> u16string list \<Rightarrow> nat \<Rightarrow> u16string list" where
  "tag_pairs cols iRow [] c = []"
| "tag_pairs cols iRow (name # rest) c =
     (name @ u16 ''='' @ (case tag_text cols iRow (c + 1) of Inr entry \<Rightarrow> entry | Inl err \<Rightarrow> []))
       # tag_pairs cols iRow rest (c + 1)"

text \<open>The \<open>name=value\<close> pairs of the field columns that follow column \<open>c\<close> and are not
  skipped, in order.\<close>

fun field_pairs :: "column list \<Rightarrow> nat \<Rightarrow> u16string list \<Rightarrow> nat \<Rightarrow> u16string list" where
  "field_pairs cols iRow [] c = []"
| "field_pairs cols iRow (name # rest) c =
     (case field_text cols iRow (c + 1) of Inr (Some tok) \<Rightarrow> [name @ u16 ''='' @ tok] | _ \<Rightarrow> [])
       @ field_pairs cols iRow rest (c + 1)"

text \<open>Pairs, each followed by a comma.\<close>

definition trail :: "u16string list \<Rightarrow> u16string" where
  "trail ps = concat (map (\<lambda>p. p @ u16 '','') ps)"

text \<open>The measurement name and the tags of a row, up to the space before the field list.\<close>

definition row_prefix :: "inputs \<Rightarrow> nat \<Rightarrow> u16string" where
  "row_prefix inp iRow =
     measurement inp @
       (if tagNames inp = [] then u16 '' ''
        else u16 '','' @ join (u16 '','') (tag_pairs (data inp) iRow (tagNames inp) 0) @ u16 '' '')"

text \<open>The pairs of the fields of a row that are not skipped.\<close>

definition row_fields :: "inputs \<Rightarrow> nat \<Rightarrow> u16string list" where
  "row_fields inp iRow = field_pairs (data inp) iRow (fieldNames inp) (length (tagNames inp))"

text \<open>The text that row \<open>iRow\<close> contributes to the output: its line, or nothing.\<close>

definition row_text :: "inputs \<Rightarrow> 64 word list \<Rightarrow> nat \<Rightarrow> u16string" where
  "row_text inp ts iRow = (case encode_row inp ts iRow of Inr (Some line) \<Rightarrow> line | _ \<Rightarrow> [])"

text \<open>Whether row \<open>iRow\<close> contributes a line.\<close>

definition row_emitted :: "inputs \<Rightarrow> 64 word list \<Rightarrow> nat \<Rightarrow> bool" where
  "row_emitted inp ts iRow = (case encode_row inp ts iRow of Inr (Some line) \<Rightarrow> True | _ \<Rightarrow> False)"

text \<open>The rows of the range that contribute a line, in the order of the range.\<close>

definition emitted_rows :: "inputs \<Rightarrow> 64 word list \<Rightarrow> nat list" where
  "emitted_rows inp ts = filter (row_emitted inp ts) [startRow inp..<endRow inp]"

text \<open>The four kinds of column that the field switch formats, and the rest.\<close>

datatype kind = SignedInt | UnsignedInt | Text | Float | Unsupported

fun column_kind :: "column \<Rightarrow> kind" where
  "column_kind (INT8 xs) = SignedInt"
| "column_kind (INT16 xs) = SignedInt"
| "column_kind (INT32 xs) = SignedInt"
| "column_kind (INT64 xs) = SignedInt"
| "column_kind (UINT8 xs) = UnsignedInt"
| "column_kind (UINT16 xs) = UnsignedInt"
| "column_kind (UINT32 xs) = UnsignedInt"
| "column_kind (UINT64 xs) = UnsignedInt"
| "column_kind (CELL cs) = Text"
| "column_kind (MATLAB_STRING ss) = Text"
| "column_kind (DOUBLE xs) = Float"
| "column_kind (SINGLE xs) = Float"
| "column_kind OTHER = Unsupported"

text \<open>The entry of row \<open>i\<close> of a column, read as its kind says.\<close>

fun int_entry :: "column \<Rightarrow> nat \<Rightarrow> int" where
  "int_entry (INT8 xs) i = sint (xs ! i)"
| "int_entry (INT16 xs) i = sint (xs ! i)"
| "int_entry (INT32 xs) i = sint (xs ! i)"
| "int_entry (INT64 xs) i = sint (xs ! i)"
| "int_entry (UINT8 xs) i = uint (xs ! i)"
| "int_entry (UINT16 xs) i = uint (xs ! i)"
| "int_entry (UINT32 xs) i = uint (xs ! i)"
| "int_entry (UINT64 xs) i = uint (xs ! i)"
| "int_entry col i = 0"

fun text_entry :: "column \<Rightarrow> nat \<Rightarrow> u16string" where
  "text_entry (CELL cs) i = (case cs ! i of CharArray s \<Rightarrow> s | OtherArray \<Rightarrow> [])"
| "text_entry (MATLAB_STRING ss) i = ss ! i"
| "text_entry col i = []"

fun float_entry :: "column \<Rightarrow> nat \<Rightarrow> double" where
  "float_entry (DOUBLE xs) i = xs ! i"
| "float_entry (SINGLE xs) i = xs ! i"
| "float_entry col i = NaN"

text \<open>A field value that is formatted: its column has a supported type and, when it is a
  floating-point column, the value is finite.\<close>

definition supported_finite :: "column \<Rightarrow> nat \<Rightarrow> bool" where
  "supported_finite col i =
     (case column_kind col of
        Float \<Rightarrow> isfinite (float_entry col i)
      | Unsupported \<Rightarrow> False
      | _ \<Rightarrow> True)"

text \<open>The formatted value of a field by kind: signed integers with the suffix \<open>i\<close>,
  unsigned integers with the suffix \<open>u\<close>, text in double quotes, floating point as plain
  decimal text.\<close>

definition spec_field_value :: "column \<Rightarrow> nat \<Rightarrow> u16string" where
  \<open>spec_field_value col i =
     (case column_kind col of
        SignedInt \<Rightarrow> to_wstring_int (int_entry col i) @ u16 ''i''
      | UnsignedInt \<Rightarrow> to_wstring_int (int_entry col i) @ u16 ''u''
      | Text \<Rightarrow> u16 ''"'' @ text_entry col i @ u16 ''"''
      | Float \<Rightarrow> (case float_entry col i of
                    Finite sg m e \<Rightarrow> to_wstring_double sg m e
                  | _ \<Rightarrow> [])
      | Unsupported \<Rightarrow> [])\<close>

text \<open>Column 0 of \<^verbatim>\<open>data\<close> is the time column; the tag columns follow, then the field columns.\<close>

definition tag_column :: "inputs \<Rightarrow> nat \<Rightarrow> column" where
  "tag_column inp k = data inp ! (1 + k)"

definition field_column :: "inputs \<Rightarrow> nat \<Rightarrow> column" where
  "field_column inp k = data inp ! (1 + length (tagNames inp) + k)"

text \<open>The line of a row with every tag and every field present.\<close>

definition spec_tag_pairs :: "inputs \<Rightarrow> nat \<Rightarrow> u16string list" where
  "spec_tag_pairs inp i =
     map (\<lambda>k. tagNames inp ! k @ u16 ''='' @ text_entry (tag_column inp k) i)
       [0..<length (tagNames inp)]"

definition spec_field_pairs :: "inputs \<Rightarrow> nat \<Rightarrow> u16string list" where
  "spec_field_pairs inp i =
     map (\<lambda>k. fieldNames inp ! k @ u16 ''='' @ spec_field_value (field_column inp k) i)
       [0..<length (fieldNames inp)]"

definition spec_line :: "inputs \<Rightarrow> 64 word list \<Rightarrow> nat \<Rightarrow> u16string" where
  "spec_line inp ts i =
     measurement inp
       @ (if tagNames inp = [] then [] else u16 '','' @ join (u16 '','') (spec_tag_pairs inp i))
       @ u16 '' '' @ join (u16 '','') (spec_field_pairs inp i)
       @ u16 '' '' @ to_wstring_int (sint (ts ! i)) @ u16 ''\<newline>''"




section \<open>Example datasets\<close>

text \<open>One row, no tag, one field column \<open>col\<close> named \<open>field\<close>, at time 1700000000.\<close>

definition single_field :: "column \<Rightarrow> inputs" where
  "single_field col =
     \<lparr>measurement = u16 ''m'', fieldNames = [u16 ''field''], tagNames = [],
      data = [INT64 [1700000000], col], startRow = 0, endRow = 1\<rparr>"

text \<open>
  Four rows with two tag columns, the second of a type that is not text, and two
  floating-point field columns: every field present in row 0, the first missing in row 1,
  both missing in row 2, the last missing in row 3.
\<close>

definition demo :: inputs where
  "demo =
     \<lparr>measurement = u16 ''cpu'',
      fieldNames = [u16 ''load'', u16 ''temp''],
      tagNames = [u16 ''host'', u16 ''core''],
      data = [INT64 [1700000000, 1700000001, 1700000002, 1700000003],
              MATLAB_STRING [u16 ''a'', u16 ''b'', u16 ''c'', u16 ''d''],
              INT32 [0, 1, 2, 3],
              DOUBLE [Finite False 7 (- 1), NaN, NaN, Finite False 1 1],
              SINGLE [Finite False 1 (- 2), Finite False 1 0, Infinite False, NaN]],
      startRow = 0, endRow = 4\<rparr>"

definition demo_time :: "64 word list" where
  "demo_time = [1700000000, 1700000001, 1700000002, 1700000003]"


section \<open>Properties of the loops\<close>

subsection \<open>Evaluation\<close>

lemma dec_digits_lt: "n < 10 \<Longrightarrow> dec_digits n = [of_nat (48 + n)]"
  by (simp add: dec_digits.simps)

lemma dec_digits_ge:
  "\<not> n < 10 \<Longrightarrow> dec_digits n = dec_digits (n div 10) @ [of_nat (48 + n mod 10)]"
  by (subst dec_digits.simps) simp

lemma replicate_numeral_eval: "replicate (numeral k) x = x # replicate (pred_numeral k) x"
  by (simp add: numeral_eq_Suc)

lemmas eval_simps =
  dec_digits_lt dec_digits_ge replicate_numeral_eval u16_def to_wstring_int_def
  to_wstring_double_def scaled6_def frac6_def at_def toUTF16_def tag_switch_def field_switch_def
  mark_missing_def field_sep_def field_step_def row_init_def row_build_def encode_row_def
  time_column_def convert2lineprotocol_def row_loop.simps Let_def

subsection \<open>The loops in closed form\<close>

lemma u16_Nil [simp]: "u16 [] = []"
  by (simp add: u16_def)
lemma u16_Cons: "u16 (c # s) = of_char c # u16 s"
  by (simp add: u16_def)
lemma u16_single_neq_Nil [simp]: "u16 [c] \<noteq> []"
  by (simp add: u16_def)

lemma trail_Nil [simp]: "trail [] = []"
  by (simp add: trail_def)
lemma trail_Cons [simp]: "trail (p # ps) = p @ u16 '','' @ trail ps"
  by (simp add: trail_def)
lemma trail_append [simp]: "trail (ps @ qs) = trail ps @ trail qs"
  by (simp add: trail_def)

lemma trail_join: "ps \<noteq> [] \<Longrightarrow> trail ps = join (u16 '','') ps @ u16 '',''"
  by (induction "u16 '',''" ps rule: join.induct) simp_all

lemma join_Cons: "ps \<noteq> [] \<Longrightarrow> join sep (p # ps) = p @ sep @ join sep ps"
  by (cases ps) simp_all

lemma length_tag_pairs [simp]: "length (tag_pairs cols iRow names c) = length names"
  by (induction names arbitrary: c) simp_all

lemma tag_pairs_eq_Nil [simp]: "tag_pairs cols iRow names c = [] \<longleftrightarrow> names = []"
  by (cases names) simp_all

lemma tag_loop_char:
  "tag_loop cols iRow names s = Inr s' \<Longrightarrow>
   rowStr s' = rowStr s @ (if names = [] then [] else
           join (u16 '','') (tag_pairs cols iRow names (colIndx s)) @ u16 '' '')
   \<and> colIndx s' = colIndx s + length names
   \<and> addRow s' = addRow s \<and> nanNum s' = nanNum s \<and> popped s' = popped s"
proof (induction names arbitrary: s)
  case Nil
  then show ?case by simp
next
  case (Cons name rest)
  define s1 where "s1 = s\<lparr>colIndx := colIndx s + 1, rowStr := rowStr s @ name @ u16 ''='' @
      (case tag_text cols iRow (colIndx s + 1) of Inr entry \<Rightarrow> entry | Inl err \<Rightarrow> [])
      @ (if rest = [] then u16 '' '' else u16 '','')\<rparr>"
  from Cons.prems have rec: "tag_loop cols iRow rest s1 = Inr s'"
    by (auto simp: Let_def s1_def tag_text_def split: sum.splits)
  show ?case
  proof (cases "rest = []")
    case True
    with rec show ?thesis by (auto simp: s1_def)
  next
    case False
    with Cons.IH [OF rec] show ?thesis by (simp add: s1_def join_Cons)
  qed
qed

lemma field_step_kept:
  assumes "field_text cols iRow (colIndx s + 1) = Inr (Some tok)"
  shows "\<exists>s'. field_step cols iRow nF is_last name s = Inr s'
     \<and> rowStr s' = rowStr s @ name @ u16 ''='' @ tok @ (if is_last then u16 '' '' else u16 '','')
     \<and> colIndx s' = colIndx s + 1 \<and> addRow s' = addRow s \<and> nanNum s' = nanNum s
     \<and> popped s' = popped s"
  using assms
  by (auto simp: field_text_def field_step_def field_sep_def Let_def split: sum.splits)

lemma field_step_skipped:
  assumes "field_text cols iRow (colIndx s + 1) = Inr None"
  shows "if is_last \<and> rowStr s = [] then field_step cols iRow nF is_last name s = Inl PopBackOnEmpty
     else (\<exists>s'. field_step cols iRow nF is_last name s = Inr s'
       \<and> rowStr s' = (if is_last then butlast (rowStr s) @ u16 '' '' else rowStr s)
       \<and> popped s' = (if is_last then popped s @ [last (rowStr s)] else popped s)
       \<and> nanNum s' = nanNum s + 1
       \<and> addRow s' = (if int nF = nanNum s + 1 then False else addRow s)
       \<and> colIndx s' = colIndx s + 1)"
  using assms
  by (auto simp: field_text_def field_step_def field_sep_def mark_missing_def Let_def split: sum.splits)

lemma field_step_error:
  "field_text cols iRow (colIndx s + 1) = Inl err \<Longrightarrow>
   field_step cols iRow nF is_last name s = Inl err"
  by (auto simp: field_text_def field_step_def Let_def split: sum.splits)

lemma field_step_cases:
  assumes "field_step cols iRow nF is_last name s = Inr s'"
  obtains (kept) tok where "field_text cols iRow (colIndx s + 1) = Inr (Some tok)"
  | (skipped) "field_text cols iRow (colIndx s + 1) = Inr None"
proof (cases "field_text cols iRow (colIndx s + 1)")
  case (Inl err)
  with assms field_step_error show ?thesis by fastforce
next
  case (Inr r)
  then show ?thesis using kept skipped by (cases r) auto
qed

lemma length_field_pairs: "length (field_pairs cols iRow names c) \<le> length names"
  by (induction names arbitrary: c) (auto split: sum.splits option.splits intro: le_SucI)

lemma field_loop_char:
  "field_loop cols iRow nF names s = Inr s' \<Longrightarrow>
   rowStr s' = (if names = [] then rowStr s
            else butlast (rowStr s @ trail (field_pairs cols iRow names (colIndx s))) @ u16 '' '')
   \<and> colIndx s' = colIndx s + length names
   \<and> nanNum s' = nanNum s + int (length names)
        - int (length (field_pairs cols iRow names (colIndx s)))"
proof (induction names arbitrary: s)
  case Nil
  then show ?case by simp
next
  case (Cons name rest)
  from Cons.prems obtain s1 where
    step: "field_step cols iRow nF (rest = []) name s = Inr s1"
    and rec: "field_loop cols iRow nF rest s1 = Inr s'"
    by (auto split: sum.splits)
  note IH = Cons.IH [OF rec]
  from step show ?case
  proof (cases rule: field_step_cases)
    case (kept tok)
    from field_step_kept [OF kept, of nF "rest = []" name] step
    have s1: "rowStr s1 = rowStr s @ name @ u16 ''='' @ tok @ (if rest = [] then u16 '' '' else u16 '','')"
      "colIndx s1 = colIndx s + 1" "nanNum s1 = nanNum s"
      by auto
    show ?thesis
    proof (cases "rest = []")
      case True
      with rec s1 kept show ?thesis by (auto simp: u16_Cons butlast_append)
    next
      case False
      with IH s1 kept show ?thesis by simp
    qed
  next
    case skipped
    from field_step_skipped [OF skipped, of "rest = []" nF name] step
    have s1: "rowStr s1 = (if rest = [] then butlast (rowStr s) @ u16 '' '' else rowStr s)"
      "colIndx s1 = colIndx s + 1" "nanNum s1 = nanNum s + 1"
      by (auto split: if_splits)
    show ?thesis
    proof (cases "rest = []")
      case True
      with rec s1 skipped show ?thesis by auto
    next
      case False
      with IH s1 skipped show ?thesis by simp
    qed
  qed
qed

lemma field_loop_addRow:
  "field_loop cols iRow nF names s = Inr s' \<Longrightarrow> nanNum s + int (length names) \<le> int nF \<Longrightarrow>
   addRow s' = (addRow s \<and> \<not> (nanNum s' = int nF \<and> nanNum s < nanNum s'))"
proof (induction names arbitrary: s)
  case Nil
  then show ?case by simp
next
  case (Cons name rest)
  from Cons.prems(1) obtain s1 where
    step: "field_step cols iRow nF (rest = []) name s = Inr s1"
    and rec: "field_loop cols iRow nF rest s1 = Inr s'"
    by (auto split: sum.splits)
  from field_loop_char [OF rec] length_field_pairs [of cols iRow rest "colIndx s1"]
  have mono: "nanNum s1 \<le> nanNum s'" "nanNum s' \<le> nanNum s1 + int (length rest)"
    by auto
  from step show ?case
  proof (cases rule: field_step_cases)
    case (kept tok)
    from field_step_kept [OF kept, of nF "rest = []" name] step
    have s1: "addRow s1 = addRow s" "nanNum s1 = nanNum s"
      by auto
    with Cons.prems(2) have "nanNum s1 + int (length rest) \<le> int nF" by simp
    from Cons.IH [OF rec this] s1 show ?thesis by simp
  next
    case skipped
    from field_step_skipped [OF skipped, of "rest = []" nF name] step
    have s1: "addRow s1 = (if int nF = nanNum s + 1 then False else addRow s)"
      "nanNum s1 = nanNum s + 1"
      by (auto split: if_splits)
    with Cons.prems(2) have bound: "nanNum s1 + int (length rest) \<le> int nF" by simp
    from Cons.IH [OF rec bound] s1 mono bound show ?thesis by auto
  qed
qed

lemma field_loop_popped:
  "field_loop cols iRow nF names s = Inr s' \<Longrightarrow>
   (if names \<noteq> [] \<and> field_text cols iRow (colIndx s + length names) = Inr None
    then rowStr s @ trail (field_pairs cols iRow names (colIndx s)) \<noteq> []
       \<and> popped s' = popped s @ [last (rowStr s @ trail (field_pairs cols iRow names (colIndx s)))]
    else popped s' = popped s)"
proof (induction names arbitrary: s)
  case Nil
  then show ?case by simp
next
  case (Cons name rest)
  from Cons.prems(1) obtain s1 where
    step: "field_step cols iRow nF (rest = []) name s = Inr s1"
    and rec: "field_loop cols iRow nF rest s1 = Inr s'"
    by (auto split: sum.splits)
  note IH = Cons.IH [OF rec]
  from step show ?case
  proof (cases rule: field_step_cases)
    case (kept tok)
    from field_step_kept [OF kept, of nF "rest = []" name] step
    have s1: "rowStr s1 = rowStr s @ name @ u16 ''='' @ tok @ (if rest = [] then u16 '' '' else u16 '','')"
      "colIndx s1 = colIndx s + 1" "popped s1 = popped s"
      by auto
    show ?thesis
    proof (cases "rest = []")
      case True
      with rec s1 kept show ?thesis by auto
    next
      case False
      with IH s1 kept show ?thesis by (auto split: if_splits)
    qed
  next
    case skipped
    from field_step_skipped [OF skipped, of "rest = []" nF name] step
    have s1: "rowStr s1 = (if rest = [] then butlast (rowStr s) @ u16 '' '' else rowStr s)"
      "colIndx s1 = colIndx s + 1"
      "popped s1 = (if rest = [] then popped s @ [last (rowStr s)] else popped s)"
      "rest = [] \<longrightarrow> rowStr s \<noteq> []"
      by (auto split: if_splits)
    show ?thesis
    proof (cases "rest = []")
      case True
      with rec s1 skipped show ?thesis by auto
    next
      case False
      with IH s1 skipped show ?thesis by (auto split: if_splits)
    qed
  qed
qed

lemma row_prefix_snoc: "\<exists>x. row_prefix inp iRow = x @ u16 '' ''"
  by (simp add: row_prefix_def)

lemma butlast_prefix_trail:
  "butlast (row_prefix inp iRow @ trail ps) @ u16 '' '' =
   row_prefix inp iRow @ (if ps = [] then [] else join (u16 '','') ps @ u16 '' '')"
proof (cases "ps = []")
  case True
  obtain x where "row_prefix inp iRow = x @ u16 '' ''"
    using row_prefix_snoc by blast
  with True show ?thesis by (simp add: u16_Cons)
next
  case False
  then show ?thesis by (simp add: trail_join butlast_append u16_Cons)
qed

lemma tag_phase:
  assumes "tag_loop (data inp) iRow (tagNames inp) (row_init inp) = Inr s1"
  shows "rowStr s1 = row_prefix inp iRow" "colIndx s1 = length (tagNames inp)"
    "addRow s1" "nanNum s1 = 0" "popped s1 = []"
  using tag_loop_char [OF assms] by (simp_all add: row_init_def row_prefix_def)

lemma row_build_char:
  assumes "row_build inp iRow = Inr s"
  shows "rowStr s = row_prefix inp iRow @
           (if row_fields inp iRow = [] then [] else join (u16 '','') (row_fields inp iRow) @ u16 '' '')"
    and "addRow s \<longleftrightarrow> row_fields inp iRow \<noteq> [] \<or> fieldNames inp = []"
proof -
  from assms obtain s1 where
    tags: "tag_loop (data inp) iRow (tagNames inp) (row_init inp) = Inr s1"
    and fields: "field_loop (data inp) iRow (length (fieldNames inp)) (fieldNames inp) s1 = Inr s"
    by (auto simp: row_build_def split: sum.splits)
  note t = tag_phase [OF tags]
  note f = field_loop_char [OF fields]
  have empty: "fieldNames inp = [] \<Longrightarrow> row_fields inp iRow = []"
    by (simp add: row_fields_def)
  from f t show "rowStr s = row_prefix inp iRow @
           (if row_fields inp iRow = [] then [] else join (u16 '','') (row_fields inp iRow) @ u16 '' '')"
    using butlast_prefix_trail [of inp iRow "row_fields inp iRow"] empty
    by (auto simp: row_fields_def)
  from field_loop_addRow [OF fields] t f
  show "addRow s \<longleftrightarrow> row_fields inp iRow \<noteq> [] \<or> fieldNames inp = []"
    using length_field_pairs [of "data inp" iRow "fieldNames inp" "length (tagNames inp)"]
    by (auto simp: row_fields_def)
qed

text \<open>
  Without any field column the field loop does not run: the flag is never cleared and the
  row buffer is the prefix alone.
\<close>

lemma row_build_no_field:
  assumes "row_build inp iRow = Inr s" and "fieldNames inp = []"
  shows "addRow s \<and> rowStr s = row_prefix inp iRow"
  using row_build_char [OF assms(1)] assms(2) by (simp add: row_fields_def)

lemma encode_row_char:
  assumes "encode_row inp ts iRow = Inr r"
  shows "r = (if row_fields inp iRow \<noteq> [] \<or> fieldNames inp = []
              then Some (row_prefix inp iRow @
                     (if row_fields inp iRow = [] then []
                      else join (u16 '','') (row_fields inp iRow) @ u16 '' '')
                     @ to_wstring_int (sint (ts ! iRow)) @ u16 ''\<newline>'')
              else None)"
proof -
  from assms obtain s where build: "row_build inp iRow = Inr s"
    by (auto simp: encode_row_def split: sum.splits)
  note b = row_build_char [OF build]
  show ?thesis
  proof (cases "addRow s")
    case True
    with assms build obtain t where "at ts iRow = Inr t"
      and r: "r = Some (rowStr s @ to_wstring_int (sint t) @ u16 ''\<newline>'')"
      by (auto simp: encode_row_def split: sum.splits)
    then have "t = ts ! iRow" by (auto simp: at_def split: if_splits)
    with r b True show ?thesis by auto
  next
    case False
    with assms build have "r = None" by (auto simp: encode_row_def)
    with b False show ?thesis by auto
  qed
qed

lemma row_loop_char:
  "row_loop inp ts iRow res = Inr out \<Longrightarrow>
   out = res @ concat (map (row_text inp ts) [iRow..<endRow inp])
   \<and> (\<forall>j. iRow \<le> j \<and> j < endRow inp \<longrightarrow> (\<exists>r. encode_row inp ts j = Inr r))"
proof (induction inp ts iRow res rule: row_loop.induct)
  case (1 inp ts iRow res)
  show ?case
  proof (cases "iRow < endRow inp")
    case False
    with "1.prems" show ?thesis by (subst (asm) row_loop.simps) auto
  next
    case True
    then have upt: "[iRow..<endRow inp] = iRow # [iRow + 1..<endRow inp]"
      by (simp add: upt_conv_Cons)
    from True "1.prems" obtain r where enc: "encode_row inp ts iRow = Inr r"
      by (subst (asm) row_loop.simps) (auto split: sum.splits)
    have step: "\<And>j. iRow \<le> j \<Longrightarrow> j \<noteq> iRow \<Longrightarrow> iRow + 1 \<le> j" by simp
    show ?thesis
    proof (cases r)
      case None
      with True enc "1.prems" have rec: "row_loop inp ts (iRow + 1) res = Inr out"
        by (subst (asm) row_loop.simps) simp
      from "1.IH"(1) [OF True enc None rec] enc None upt show ?thesis
        by (auto simp: row_text_def dest: step)
    next
      case (Some line)
      with True enc "1.prems" have rec: "row_loop inp ts (iRow + 1) (res @ line) = Inr out"
        by (subst (asm) row_loop.simps) simp
      from "1.IH"(2) [OF True enc Some rec] enc Some upt show ?thesis
        by (auto simp: row_text_def dest: step)
    qed
  qed
qed

lemma row_loop_total:
  "(\<forall>j. iRow \<le> j \<and> j < endRow inp \<longrightarrow> (\<exists>r. encode_row inp ts j = Inr r)) \<Longrightarrow>
   \<exists>out. row_loop inp ts iRow res = Inr out"
proof (induction inp ts iRow res rule: row_loop.induct)
  case (1 inp ts iRow res)
  show ?case
  proof (cases "iRow < endRow inp")
    case False
    then show ?thesis by (simp add: row_loop.simps)
  next
    case True
    with "1.prems" obtain r where enc: "encode_row inp ts iRow = Inr r" by auto
    from "1.prems" have rest: "\<forall>j. iRow + 1 \<le> j \<and> j < endRow inp \<longrightarrow> (\<exists>r. encode_row inp ts j = Inr r)"
      by auto
    show ?thesis
    proof (cases r)
      case None
      from "1.IH"(1) [OF True enc None rest] True enc None show ?thesis
        by (subst row_loop.simps) simp
    next
      case (Some line)
      from "1.IH"(2) [OF True enc Some rest] True enc Some show ?thesis
        by (subst row_loop.simps) simp
    qed
  qed
qed

lemma concat_map_filter_text:
  "(\<And>x. \<not> P x \<Longrightarrow> f x = []) \<Longrightarrow> concat (map f (filter P xs)) = concat (map f xs)"
  by (induction xs) auto

lemma row_text_not_emitted: "\<not> row_emitted inp ts j \<Longrightarrow> row_text inp ts j = []"
  by (auto simp: row_emitted_def row_text_def split: sum.splits option.splits)

lemma convert_char:
  assumes "convert2lineprotocol inp = Inr res"
  shows "\<exists>ts. time_column inp = Inr ts
    \<and> res = concat (map (row_text inp ts) [startRow inp..<endRow inp])
    \<and> (\<forall>j. startRow inp \<le> j \<and> j < endRow inp \<longrightarrow> (\<exists>r. encode_row inp ts j = Inr r))"
proof -
  from assms obtain ts where tc: "time_column inp = Inr ts"
    and loop: "row_loop inp ts (startRow inp) [] = Inr res"
    by (auto simp: convert2lineprotocol_def split: sum.splits)
  from row_loop_char [OF loop] tc show ?thesis by auto
qed

lemma field_switch_spec:
  "field_switch col i = Inr r \<Longrightarrow>
   r = (if supported_finite col i then Some (spec_field_value col i) else None)"
  by (cases col)
    (auto simp: field_switch_def at_def toUTF16_def supported_finite_def spec_field_value_def
          split: if_splits sum.splits cell.splits double.splits)

lemma tag_switch_spec: "tag_switch col i = Inr v \<Longrightarrow> v = text_entry col i"
  by (cases col)
    (auto simp: tag_switch_def at_def toUTF16_def split: if_splits sum.splits cell.splits)

lemma field_text_spec:
  "field_text cols i c = Inr r \<Longrightarrow>
   r = (if supported_finite (cols ! c) i then Some (spec_field_value (cols ! c) i) else None)"
  by (auto simp: field_text_def at_def split: if_splits sum.splits dest: field_switch_spec)

lemma tag_text_spec: "tag_text cols i c = Inr v \<Longrightarrow> v = text_entry (cols ! c) i"
  by (auto simp: tag_text_def at_def split: if_splits sum.splits dest: tag_switch_spec)

lemma tag_loop_ok:
  "tag_loop cols iRow names s = Inr s' \<Longrightarrow> k < length names \<Longrightarrow>
   \<exists>v. tag_text cols iRow (colIndx s + 1 + k) = Inr v"
proof (induction names arbitrary: s k)
  case Nil
  then show ?case by simp
next
  case (Cons name rest)
  define s1 where "s1 = s\<lparr>colIndx := colIndx s + 1, rowStr := rowStr s @ name @ u16 ''='' @
      (case tag_text cols iRow (colIndx s + 1) of Inr entry \<Rightarrow> entry | Inl err \<Rightarrow> [])
      @ (if rest = [] then u16 '' '' else u16 '','')\<rparr>"
  from Cons.prems(1) have here: "\<exists>entry. tag_text cols iRow (colIndx s + 1) = Inr entry"
    and rec: "tag_loop cols iRow rest s1 = Inr s'"
    by (auto simp: Let_def s1_def tag_text_def split: sum.splits)
  have s1: "colIndx s1 = colIndx s + 1" by (simp add: s1_def)
  show ?case
  proof (cases k)
    case 0
    with here show ?thesis by simp
  next
    case (Suc k')
    with Cons.prems(2) have "k' < length rest" by simp
    from Cons.IH [OF rec this] s1 Suc show ?thesis by simp
  qed
qed

lemma field_loop_ok:
  "field_loop cols iRow nF names s = Inr s' \<Longrightarrow> k < length names \<Longrightarrow>
   \<exists>r. field_text cols iRow (colIndx s + 1 + k) = Inr r"
proof (induction names arbitrary: s k)
  case Nil
  then show ?case by simp
next
  case (Cons name rest)
  from Cons.prems(1) obtain s1 where
    step: "field_step cols iRow nF (rest = []) name s = Inr s1"
    and rec: "field_loop cols iRow nF rest s1 = Inr s'"
    by (auto split: sum.splits)
  from step have here: "\<exists>r. field_text cols iRow (colIndx s + 1) = Inr r"
    by (cases rule: field_step_cases) auto
  from step have s1: "colIndx s1 = colIndx s + 1"
    by (auto simp: field_step_def field_sep_def mark_missing_def Let_def
          split: sum.splits option.splits if_splits)
  show ?case
  proof (cases k)
    case 0
    with here show ?thesis by simp
  next
    case (Suc k')
    with Cons.prems(2) have "k' < length rest" by simp
    from Cons.IH [OF rec this] s1 Suc show ?thesis by simp
  qed
qed

lemma tag_pairs_index:
  "(\<And>k. k < length names \<Longrightarrow> \<exists>v. tag_text cols i (c + 1 + k) = Inr v) \<Longrightarrow>
   tag_pairs cols i names c =
     map (\<lambda>k. names ! k @ u16 ''='' @ text_entry (cols ! (c + 1 + k)) i) [0..<length names]"
proof (induction names arbitrary: c)
  case Nil
  then show ?case by simp
next
  case (Cons name rest)
  from Cons.prems [of 0] obtain v where v: "tag_text cols i (c + 1) = Inr v" by auto
  have "\<And>k. k < length rest \<Longrightarrow> \<exists>v. tag_text cols i (c + 1 + 1 + k) = Inr v"
    using Cons.prems [of "Suc k" for k] by simp
  from Cons.IH [OF this] v tag_text_spec [OF v] show ?case
    by (simp add: map_upt_Suc del: upt_Suc)
qed

lemma field_pairs_index:
  "(\<And>k. k < length names \<Longrightarrow> \<exists>r. field_text cols i (c + 1 + k) = Inr r) \<Longrightarrow>
   field_pairs cols i names c =
     concat (map (\<lambda>k. if supported_finite (cols ! (c + 1 + k)) i
                       then [names ! k @ u16 ''='' @ spec_field_value (cols ! (c + 1 + k)) i]
                       else []) [0..<length names])"
proof (induction names arbitrary: c)
  case Nil
  then show ?case by simp
next
  case (Cons name rest)
  from Cons.prems [of 0] obtain r where r: "field_text cols i (c + 1) = Inr r" by auto
  have "\<And>k. k < length rest \<Longrightarrow> \<exists>r. field_text cols i (c + 1 + 1 + k) = Inr r"
    using Cons.prems [of "Suc k" for k] by simp
  from Cons.IH [OF this] r field_text_spec [OF r] show ?case
    by (simp add: map_upt_Suc del: upt_Suc cong: if_cong)
qed

lemma concat_map_all:
  "(\<forall>k \<in> set xs. P k) \<Longrightarrow> concat (map (\<lambda>k. if P k then [f k] else []) xs) = map f xs"
  by (induction xs) simp_all

lemma concat_map_none:
  "(\<forall>k \<in> set xs. \<not> P k) \<Longrightarrow> concat (map (\<lambda>k. if P k then [f k] else []) xs) = []"
  by (induction xs) simp_all

lemma row_build_spec:
  assumes "row_build inp iRow = Inr s"
  shows "tag_pairs (data inp) iRow (tagNames inp) 0 = spec_tag_pairs inp iRow"
    and "row_fields inp iRow =
      concat (map (\<lambda>k. if supported_finite (field_column inp k) iRow
                       then [fieldNames inp ! k @ u16 ''='' @ spec_field_value (field_column inp k) iRow]
                       else []) [0..<length (fieldNames inp)])"
proof -
  from assms obtain s1 where
    tags: "tag_loop (data inp) iRow (tagNames inp) (row_init inp) = Inr s1"
    and fields: "field_loop (data inp) iRow (length (fieldNames inp)) (fieldNames inp) s1 = Inr s"
    by (auto simp: row_build_def split: sum.splits)
  have c0: "colIndx (row_init inp) = 0" by (simp add: row_init_def)
  from tag_loop_ok [OF tags] c0
  have "\<And>k. k < length (tagNames inp) \<Longrightarrow> \<exists>v. tag_text (data inp) iRow (0 + 1 + k) = Inr v"
    by simp
  from tag_pairs_index [where names = "tagNames inp" and cols = "data inp" and i = iRow and c = 0, OF this]
  show "tag_pairs (data inp) iRow (tagNames inp) 0 = spec_tag_pairs inp iRow"
    by (simp add: spec_tag_pairs_def tag_column_def)
  from field_loop_ok [OF fields] tag_phase(2) [OF tags]
  have "\<And>k. k < length (fieldNames inp) \<Longrightarrow>
      \<exists>r. field_text (data inp) iRow (length (tagNames inp) + 1 + k) = Inr r"
    by simp
  from field_pairs_index [where names = "fieldNames inp" and cols = "data inp" and i = iRow
      and c = "length (tagNames inp)", OF this]
  show "row_fields inp iRow =
      concat (map (\<lambda>k. if supported_finite (field_column inp k) iRow
                       then [fieldNames inp ! k @ u16 ''='' @ spec_field_value (field_column inp k) iRow]
                       else []) [0..<length (fieldNames inp)])"
    by (simp add: row_fields_def field_column_def add.commute cong: if_cong)
qed

lemma demo_time_column: "time_column demo = Inr demo_time"
  by (simp add: demo_def demo_time_def time_column_def at_def)

lemma encode_row_build: "encode_row inp ts iRow = Inr r \<Longrightarrow> \<exists>s. row_build inp iRow = Inr s"
  by (auto simp: encode_row_def split: sum.splits)

lemma upt_split:
  assumes "s \<le> i" and "i < e"
  shows "[s..<e] = [s..<i] @ i # [i + 1..<e]"
proof -
  from assms have "i + (e - i) = e" by simp
  with upt_add_eq_append [OF assms(1), of "e - i"] have "[s..<e] = [s..<i] @ [i..<e]"
    by simp
  moreover from assms(2) have "[i..<e] = i # [i + 1..<e]"
    by (simp add: upt_conv_Cons)
  ultimately show ?thesis by simp
qed

lemma convert_split:
  assumes "convert2lineprotocol inp = Inr res" and "time_column inp = Inr ts"
    and "startRow inp \<le> iRow" and "iRow < endRow inp"
  shows "res = concat (map (row_text inp ts) [startRow inp..<iRow]) @ row_text inp ts iRow
           @ concat (map (row_text inp ts) [iRow + 1..<endRow inp])"
    and "\<exists>r. encode_row inp ts iRow = Inr r"
proof -
  from convert_char [OF assms(1)] obtain ts' where "time_column inp = Inr ts'"
    and res: "res = concat (map (row_text inp ts') [startRow inp..<endRow inp])"
    and ok: "\<And>j. startRow inp \<le> j \<Longrightarrow> j < endRow inp \<Longrightarrow> \<exists>r. encode_row inp ts' j = Inr r"
    by blast
  with assms(2) have eq: "ts' = ts" by simp
  from res eq upt_split [OF assms(3,4)]
  show "res = concat (map (row_text inp ts) [startRow inp..<iRow]) @ row_text inp ts iRow
           @ concat (map (row_text inp ts) [iRow + 1..<endRow inp])"
    by simp
  from ok [OF assms(3,4)] eq show "\<exists>r. encode_row inp ts iRow = Inr r" by simp
qed

lemma prefix_line:
  "tag_pairs (data inp) iRow (tagNames inp) 0 = spec_tag_pairs inp iRow \<Longrightarrow>
   row_fields inp iRow = spec_field_pairs inp iRow \<Longrightarrow>
   row_prefix inp iRow @ join (u16 '','') (row_fields inp iRow) @ u16 '' ''
     @ to_wstring_int (sint (ts ! iRow)) @ u16 ''\<newline>'' = spec_line inp ts iRow"
  by (simp add: row_prefix_def spec_line_def)

lemma demo_output:
  "convert2lineprotocol demo = Inr (u16
     (''cpu,host=a,core= load=3.500000,temp=0.250000 1700000000\<newline>'' @
      ''cpu,host=b,core= temp=1.000000 1700000001\<newline>'' @
      ''cpu,host=d,core= load=2.000000 1700000003\<newline>''))"
  by (simp add: demo_def eval_simps)

lemma demo_row0_complete:
  "\<forall>k < length (fieldNames demo). supported_finite (field_column demo k) 0"
  by (simp add: demo_def field_column_def supported_finite_def less_Suc_eq numeral_2_eq_2)

lemma demo_row2_missing:
  "\<forall>k < length (fieldNames demo). \<not> supported_finite (field_column demo k) 2"
  by (simp add: demo_def field_column_def supported_finite_def less_Suc_eq numeral_2_eq_2)

lemma emitted_rows_less:
  assumes "startRow inp \<le> iRow" and "iRow < endRow inp" and "\<not> row_emitted inp ts iRow"
  shows "iRow \<notin> set (emitted_rows inp ts)"
    and "length (emitted_rows inp ts) \<le> endRow inp - startRow inp - 1"
proof -
  from assms(3) show "iRow \<notin> set (emitted_rows inp ts)"
    by (simp add: emitted_rows_def)
  from assms(1,2) have "iRow \<in> set [startRow inp..<endRow inp]" by simp
  from length_filter_less [where P = "row_emitted inp ts", OF this assms(3)]
  show "length (emitted_rows inp ts) \<le> endRow inp - startRow inp - 1"
    by (simp add: emitted_rows_def)
qed

lemma tag_switch_not_text: "column_kind col \<noteq> Text \<Longrightarrow> tag_switch col iRow = Inr []"
  by (cases col) (simp_all add: tag_switch_def)

lemma field_loop_snoc:
  "field_loop cols iRow nF (front @ [name]) s0 = Inr s' \<Longrightarrow>
   \<exists>s. field_loop cols iRow nF [name] s = Inr s'
     \<and> rowStr s = rowStr s0 @ trail (field_pairs cols iRow front (colIndx s0))
     \<and> colIndx s = colIndx s0 + length front
     \<and> popped s = popped s0"
proof (induction front arbitrary: s0)
  case Nil
  then show ?case by auto
next
  case (Cons n front)
  from Cons.prems obtain s1 where
    step: "field_step cols iRow nF False n s0 = Inr s1"
    and rec: "field_loop cols iRow nF (front @ [name]) s1 = Inr s'"
    by (auto split: sum.splits)
  from step have s1: "rowStr s1 = rowStr s0 @ trail (field_pairs cols iRow [n] (colIndx s0))
      \<and> colIndx s1 = colIndx s0 + 1 \<and> popped s1 = popped s0"
  proof (cases rule: field_step_cases)
    case (kept tok)
    from field_step_kept [OF kept, of nF False n] step kept show ?thesis by auto
  next
    case skipped
    from field_step_skipped [OF skipped, of False nF n] step skipped show ?thesis by auto
  qed
  from Cons.IH [OF rec] s1 show ?case
    by (auto split: sum.splits option.splits)
qed

lemma field_text_error: "field_text cols iRow c = Inl err \<Longrightarrow> err \<noteq> PopBackOnEmpty"
  by (auto simp: field_text_def field_switch_def at_def toUTF16_def
        split: sum.splits if_splits column.splits cell.splits double.splits)

lemma tag_loop_error: "tag_loop cols iRow names s = Inl err \<Longrightarrow> err \<noteq> PopBackOnEmpty"
proof (induction names arbitrary: s)
  case Nil
  then show ?case by simp
next
  case (Cons name rest)
  then show ?case
    by (auto simp: Let_def tag_switch_def at_def toUTF16_def
          split: sum.splits if_splits column.splits cell.splits)
qed

lemma field_step_nonempty:
  assumes "field_step cols iRow nF is_last name s = Inr s1" and "rowStr s \<noteq> []"
  shows "rowStr s1 \<noteq> []"
  using assms(1)
proof (cases rule: field_step_cases)
  case (kept tok)
  from field_step_kept [OF kept, of nF is_last name] assms show ?thesis by auto
next
  case skipped
  from field_step_skipped [OF skipped, of is_last nF name] assms show ?thesis
    by (auto split: if_splits)
qed

lemma field_step_no_pop_error:
  assumes "field_step cols iRow nF is_last name s = Inl err" and "rowStr s \<noteq> []"
  shows "err \<noteq> PopBackOnEmpty"
proof (cases "field_text cols iRow (colIndx s + 1)")
  case (Inl e)
  from field_step_error [OF Inl, of nF is_last name] assms(1) field_text_error [OF Inl]
  show ?thesis by simp
next
  case (Inr r)
  show ?thesis
  proof (cases r)
    case None
    with Inr field_step_skipped [of cols iRow s is_last nF name] assms show ?thesis
      by (auto split: if_splits)
  next
    case (Some tok)
    with Inr field_step_kept [of cols iRow s tok nF is_last name] assms show ?thesis
      by auto
  qed
qed

lemma field_loop_error:
  "field_loop cols iRow nF names s = Inl err \<Longrightarrow> rowStr s \<noteq> [] \<Longrightarrow> err \<noteq> PopBackOnEmpty"
proof (induction names arbitrary: s)
  case Nil
  then show ?case by simp
next
  case (Cons name rest)
  show ?case
  proof (cases "field_step cols iRow nF (rest = []) name s")
    case (Inl e)
    with Cons.prems(1) have "e = err" by simp
    with field_step_no_pop_error [OF Inl Cons.prems(2)] show ?thesis by simp
  next
    case (Inr s1)
    with Cons.prems(1) have "field_loop cols iRow nF rest s1 = Inl err" by simp
    from Cons.IH [OF this field_step_nonempty [OF Inr Cons.prems(2)]] show ?thesis .
  qed
qed

lemma row_build_error: "row_build inp iRow \<noteq> Inl PopBackOnEmpty"
proof
  assume bad: "row_build inp iRow = Inl PopBackOnEmpty"
  show False
  proof (cases "tag_loop (data inp) iRow (tagNames inp) (row_init inp)")
    case (Inl e)
    with bad tag_loop_error [OF Inl] show False by (simp add: row_build_def)
  next
    case (Inr s1)
    from tag_phase(1) [OF Inr] have "rowStr s1 \<noteq> []"
      by (simp add: row_prefix_def)
    with bad Inr field_loop_error [of "data inp" iRow "length (fieldNames inp)" "fieldNames inp" s1]
    show False by (simp add: row_build_def)
  qed
qed

lemma encode_row_error: "encode_row inp ts iRow \<noteq> Inl PopBackOnEmpty"
  using row_build_error [of inp iRow]
  by (auto simp: encode_row_def at_def split: sum.splits if_splits)

lemma row_loop_error: "row_loop inp ts iRow res \<noteq> Inl PopBackOnEmpty"
proof (induction inp ts iRow res rule: row_loop.induct)
  case (1 inp ts iRow res)
  show ?case
  proof (cases "iRow < endRow inp")
    case False
    then show ?thesis by (subst row_loop.simps) simp
  next
    case True
    show ?thesis
    proof (cases "encode_row inp ts iRow")
      case (Inl e)
      with True encode_row_error [of inp ts iRow] show ?thesis
        by (subst row_loop.simps) auto
    next
      case (Inr r)
      show ?thesis
      proof (cases r)
        case None
        with "1.IH"(1) [OF True Inr None] True Inr show ?thesis
          by (subst row_loop.simps) simp
      next
        case (Some line)
        with "1.IH"(2) [OF True Inr Some] True Inr show ?thesis
          by (subst row_loop.simps) simp
      qed
    qed
  qed
qed

lemma row_prefix_last: "last (row_prefix inp iRow) = last (u16 '' '')"
  by (simp add: row_prefix_def u16_def)

lemma trail_last: "ps \<noteq> [] \<Longrightarrow> last (xs @ trail ps) = last (u16 '','')"
  by (simp add: trail_join u16_def)

lemma row_build_popped:
  assumes "row_build inp iRow = Inr s"
  shows "popped s = [] \<or> popped s = [last (row_prefix inp iRow @ trail (row_fields inp iRow))]"
    and "fieldNames inp = [] \<Longrightarrow> popped s = []"
proof -
  from assms obtain s1 where
    tags: "tag_loop (data inp) iRow (tagNames inp) (row_init inp) = Inr s1"
    and fields: "field_loop (data inp) iRow (length (fieldNames inp)) (fieldNames inp) s1 = Inr s"
    by (auto simp: row_build_def split: sum.splits)
  note t = tag_phase [OF tags]
  from field_loop_popped [OF fields] t
  show "popped s = [] \<or> popped s = [last (row_prefix inp iRow @ trail (row_fields inp iRow))]"
    by (auto simp: row_fields_def split: if_splits)
  from field_loop_popped [OF fields] t
  show "fieldNames inp = [] \<Longrightarrow> popped s = []"
    by (auto split: if_splits)
qed









section \<open>The claims\<close>

subsection \<open>C1: the line of a row with every field present\<close>

text \<open>
  C1: when the call succeeds on a dataset with at least one field column, every row of the
  range in which each field column has a supported type and each floating-point field value
  is finite contributes exactly one line, between the text of the rows before it and the
  text of the rows after it. The line is the measurement name, then a comma and the
  \<open>name=value\<close> pairs of all tag columns joined by commas when there are tags, a space, the
  \<open>name=value\<close> pairs of all field columns in column order joined by commas, each value
  formatted by the kind of its column, a space, the timestamp and a newline.
\<close>

theorem complete_row_line:
  assumes "convert2lineprotocol inp = Inr res"
    and "startRow inp \<le> iRow" and "iRow < endRow inp"
    and "fieldNames inp \<noteq> []"
    and "\<forall>k < length (fieldNames inp). supported_finite (field_column inp k) iRow"
  shows "\<exists>ts. time_column inp = Inr ts
     \<and> encode_row inp ts iRow = Inr (Some (spec_line inp ts iRow))
     \<and> res = concat (map (row_text inp ts) [startRow inp..<iRow]) @ spec_line inp ts iRow
              @ concat (map (row_text inp ts) [iRow + 1..<endRow inp])
     \<and> length (spec_tag_pairs inp iRow) = length (tagNames inp)
     \<and> length (spec_field_pairs inp iRow) = length (fieldNames inp)"
proof -
  from convert_char [OF assms(1)] obtain ts where tc: "time_column inp = Inr ts"
    by blast
  from convert_split [OF assms(1) tc assms(2,3)] obtain r where
    res: "res = concat (map (row_text inp ts) [startRow inp..<iRow]) @ row_text inp ts iRow
           @ concat (map (row_text inp ts) [iRow + 1..<endRow inp])"
    and enc: "encode_row inp ts iRow = Inr r"
    by blast
  from encode_row_build [OF enc] obtain s where build: "row_build inp iRow = Inr s" ..
  have fields: "row_fields inp iRow = spec_field_pairs inp iRow"
    using row_build_spec(2) [OF build] assms(5)
    by (simp add: concat_map_all spec_field_pairs_def)
  with assms(4) have nonempty: "row_fields inp iRow \<noteq> []"
    by (simp add: spec_field_pairs_def)
  from encode_row_char [OF enc] nonempty prefix_line [OF row_build_spec(1) [OF build] fields]
  have r: "r = Some (spec_line inp ts iRow)" by simp
  with enc have "row_text inp ts iRow = spec_line inp ts iRow" by (simp add: row_text_def)
  with tc enc r res show ?thesis
    by (simp add: spec_tag_pairs_def spec_field_pairs_def)
qed

text \<open>Row 0 of the example dataset is such a row.\<close>

theorem complete_row_line_witness:
  "spec_line demo demo_time 0 = u16 ''cpu,host=a,core= load=3.500000,temp=0.250000 1700000000\<newline>''
   \<and> encode_row demo demo_time 0 = Inr (Some (spec_line demo demo_time 0))
   \<and> length (spec_field_pairs demo 0) = 2"
proof -
  have range: "startRow demo \<le> 0" "0 < endRow demo" "fieldNames demo \<noteq> []"
    by (simp_all add: demo_def)
  from complete_row_line [OF demo_output range demo_row0_complete] demo_time_column
  have "encode_row demo demo_time 0 = Inr (Some (spec_line demo demo_time 0))"
    and "length (spec_field_pairs demo 0) = length (fieldNames demo)"
    by auto
  moreover have "spec_line demo demo_time 0
      = u16 ''cpu,host=a,core= load=3.500000,temp=0.250000 1700000000\<newline>''"
    by (simp add: spec_line_def spec_tag_pairs_def spec_field_pairs_def spec_field_value_def
        tag_column_def field_column_def demo_def demo_time_def eval_simps upt_rec [of 0]
        upt_rec [of 1] upt_rec [of 2])
  ultimately show ?thesis by (simp add: demo_def)
qed

subsection \<open>C2: the format of a value by column type\<close>

text \<open>
  C2, as the specification states it, fails in its last part: a double field of value 3.5
  (the double \<open>7 * 2 ^ -1\<close>) is not rendered as \<open>field=3.5\<close>.
\<close>

theorem double_format_counterexample:
  "convert2lineprotocol (single_field (DOUBLE [Finite False 7 (- 1)]))
     \<noteq> Inr (u16 ''m field=3.5 1700000000\<newline>'')"
  by (simp add: single_field_def eval_simps)

text \<open>
  C2, amended: a signed 32-bit integer field of value -5 renders as \<open>field=-5i\<close>, an unsigned
  integer field of value 7 as \<open>field=7u\<close>, a text field holding \<open>ok\<close>, in either
  representation, as \<open>field="ok"\<close>, and a finite double field of value 3.5 as
  \<open>field=3.500000\<close>: fixed notation with six digits after the decimal point, no suffix and no
  quoting.
\<close>

theorem value_formats:
  \<open>convert2lineprotocol (single_field (INT32 [- 5])) = Inr (u16 ''m field=-5i 1700000000\<newline>'')
   \<and> convert2lineprotocol (single_field (UINT32 [7])) = Inr (u16 ''m field=7u 1700000000\<newline>'')
   \<and> convert2lineprotocol (single_field (MATLAB_STRING [u16 ''ok'']))
       = Inr (u16 ''m field="ok" 1700000000\<newline>'')
   \<and> convert2lineprotocol (single_field (CELL [CharArray (u16 ''ok'')]))
       = Inr (u16 ''m field="ok" 1700000000\<newline>'')
   \<and> convert2lineprotocol (single_field (DOUBLE [Finite False 7 (- 1)]))
       = Inr (u16 ''m field=3.500000 1700000000\<newline>'')\<close>
  by (simp add: single_field_def eval_simps)

subsection \<open>C3: a row with every field missing\<close>

text \<open>
  C3: when the call succeeds on a dataset with at least one field column, a row of the range
  in which every field value is skipped (its column has an unsupported type, or it is a
  floating-point value that is not finite) contributes nothing: the output is the text of
  the rows before it followed by the text of the rows after it, the row is not among the
  rows that have a line, and these are fewer than the rows of the range.
\<close>

theorem missing_row_suppressed:
  assumes "convert2lineprotocol inp = Inr res"
    and "startRow inp \<le> iRow" and "iRow < endRow inp"
    and "fieldNames inp \<noteq> []"
    and "\<forall>k < length (fieldNames inp). \<not> supported_finite (field_column inp k) iRow"
  shows "\<exists>ts. time_column inp = Inr ts
     \<and> encode_row inp ts iRow = Inr None
     \<and> res = concat (map (row_text inp ts) ([startRow inp..<iRow] @ [iRow + 1..<endRow inp]))
     \<and> iRow \<notin> set (emitted_rows inp ts)
     \<and> length (emitted_rows inp ts) \<le> endRow inp - startRow inp - 1"
proof -
  from convert_char [OF assms(1)] obtain ts where tc: "time_column inp = Inr ts"
    by blast
  from convert_split [OF assms(1) tc assms(2,3)] obtain r where
    res: "res = concat (map (row_text inp ts) [startRow inp..<iRow]) @ row_text inp ts iRow
           @ concat (map (row_text inp ts) [iRow + 1..<endRow inp])"
    and enc: "encode_row inp ts iRow = Inr r"
    by blast
  from encode_row_build [OF enc] obtain s where build: "row_build inp iRow = Inr s" ..
  have fields: "row_fields inp iRow = []"
    using row_build_spec(2) [OF build] assms(5) by (simp add: concat_map_none)
  with encode_row_char [OF enc] assms(4) have r: "r = None" by simp
  with enc have none: "encode_row inp ts iRow = Inr None" by simp
  then have quiet: "\<not> row_emitted inp ts iRow" "row_text inp ts iRow = []"
    by (simp_all add: row_emitted_def row_text_def)
  from emitted_rows_less [OF assms(2,3) quiet(1)] tc none res quiet(2) show ?thesis
    by simp
qed

text \<open>Row 2 of the example dataset is such a row.\<close>

theorem missing_row_suppressed_witness:
  "encode_row demo demo_time 2 = Inr None
   \<and> 2 \<notin> set (emitted_rows demo demo_time)
   \<and> length (emitted_rows demo demo_time) \<le> 3"
proof -
  have range: "startRow demo \<le> 2" "2 < endRow demo" "fieldNames demo \<noteq> []"
    by (simp_all add: demo_def)
  from missing_row_suppressed [OF demo_output range demo_row2_missing] demo_time_column
  show ?thesis by (auto simp: demo_def)
qed

subsection \<open>C4: a missing field that is not the last one\<close>




subsection \<open>C5: the separator after the measurement name\<close>

text \<open>
  C5: the line of every emitted row starts with the measurement name followed by a single
  space when there is no tag column and by a comma when there is one.
\<close>

theorem measurement_separator:
  assumes "encode_row inp ts iRow = Inr (Some line)"
  shows "\<exists>rest. line = measurement inp @ (if tagNames inp = [] then u16 '' '' else u16 '','') @ rest"
  using encode_row_char [OF assms] by (auto simp: row_prefix_def split: if_splits)

text \<open>A line without tags and a line of the example dataset, which has two.\<close>

theorem measurement_separator_witness:
  "(\<exists>rest. u16 ''m field=7u 1700000000\<newline>'' = u16 ''m'' @ u16 '' '' @ rest)
   \<and> (\<exists>rest. u16 ''cpu,host=a,core= load=3.500000,temp=0.250000 1700000000\<newline>''
         = u16 ''cpu'' @ u16 '','' @ rest)"
proof -
  have a: "encode_row (single_field (UINT32 [7])) [1700000000] 0
      = Inr (Some (u16 ''m field=7u 1700000000\<newline>''))"
    by (simp add: single_field_def eval_simps)
  have b: "encode_row demo demo_time 0
      = Inr (Some (u16 ''cpu,host=a,core= load=3.500000,temp=0.250000 1700000000\<newline>''))"
    by (simp add: demo_def demo_time_def eval_simps)
  from measurement_separator [OF a] measurement_separator [OF b] show ?thesis
    by (simp add: single_field_def demo_def)
qed

subsection \<open>C6: a missing last field\<close>

text \<open>
  C6: in a row that is built without error and whose last field is skipped, the iteration
  of the field loop on the last name starts with a row buffer that is not empty: the
  measurement name and the tags followed by the pairs of the earlier fields that were not
  skipped, each with its comma. The iteration removes the last character of that buffer and
  appends a single space, and the line of the row, when it has one, is the resulting buffer
  followed by the timestamp and a newline.
\<close>

theorem last_field_skipped:
  assumes "row_build inp iRow = Inr s'"
    and "fieldNames inp = front @ [name]"
    and "field_text (data inp) iRow (length (tagNames inp) + length (fieldNames inp)) = Inr None"
  shows "\<exists>s. field_loop (data inp) iRow (length (fieldNames inp)) [name] s = Inr s'
     \<and> rowStr s = row_prefix inp iRow
          @ trail (field_pairs (data inp) iRow front (length (tagNames inp)))
     \<and> rowStr s \<noteq> []
     \<and> rowStr s' = butlast (rowStr s) @ u16 '' ''
     \<and> popped s' = [last (rowStr s)]
     \<and> (\<forall>ts line. encode_row inp ts iRow = Inr (Some line)
          \<longrightarrow> line = butlast (rowStr s) @ u16 '' '' @ to_wstring_int (sint (ts ! iRow))
                @ u16 ''\<newline>'')"
proof -
  from assms(1) obtain s1 where
    tags: "tag_loop (data inp) iRow (tagNames inp) (row_init inp) = Inr s1"
    and fields: "field_loop (data inp) iRow (length (fieldNames inp)) (fieldNames inp) s1 = Inr s'"
    by (auto simp: row_build_def split: sum.splits)
  note t = tag_phase [OF tags]
  from fields assms(2) field_loop_snoc [of "data inp" iRow "length (fieldNames inp)" front name s1 s']
  obtain s where last: "field_loop (data inp) iRow (length (fieldNames inp)) [name] s = Inr s'"
    and s: "rowStr s = rowStr s1 @ trail (field_pairs (data inp) iRow front (colIndx s1))"
      "colIndx s = colIndx s1 + length front" "popped s = popped s1"
    by auto
  from s t assms(2) have skip: "field_text (data inp) iRow (colIndx s + 1) = Inr None"
    using assms(3) by simp
  from last have step: "field_step (data inp) iRow (length (fieldNames inp)) True name s = Inr s'"
    by (auto split: sum.splits)
  from field_step_skipped [OF skip, of True "length (fieldNames inp)" name] step
  have pop: "rowStr s \<noteq> []" "rowStr s' = butlast (rowStr s) @ u16 '' ''"
    "popped s' = popped s @ [last (rowStr s)]"
    by (auto split: if_splits)
  have "line = butlast (rowStr s) @ u16 '' '' @ to_wstring_int (sint (ts ! iRow)) @ u16 ''\<newline>''"
    if "encode_row inp ts iRow = Inr (Some line)" for ts line
    using that assms(1) pop(2) by (auto simp: encode_row_def at_def split: if_splits)
  with last s t pop show ?thesis by auto
qed

text \<open>
  In row 3 of the example dataset the last field is missing: the comma after the pair of
  the first field gives way to the space before the timestamp.
\<close>

theorem last_field_skipped_witness:
  "\<exists>(s::row_state) s'. row_build demo 3 = Inr s'
     \<and> rowStr s = u16 ''cpu,host=d,core= load=2.000000,''
     \<and> rowStr s' = u16 ''cpu,host=d,core= load=2.000000 ''
     \<and> popped s' = u16 '',''"
proof -
  obtain s' where build: "row_build demo 3 = Inr s'"
    by (simp add: demo_def eval_simps)
  have names: "fieldNames demo = [u16 ''load''] @ [u16 ''temp'']"
    by (simp add: demo_def)
  have skip: "field_text (data demo) 3 (length (tagNames demo) + length (fieldNames demo)) = Inr None"
    by (simp add: field_text_def demo_def eval_simps)
  have prefix: "row_prefix demo 3 @ trail (field_pairs (data demo) 3 [u16 ''load''] (length (tagNames demo)))
      = u16 ''cpu,host=d,core= load=2.000000,''"
    by (simp add: row_prefix_def field_text_def tag_text_def demo_def eval_simps)
  from last_field_skipped [OF build names skip] obtain s where
    all: "field_loop (data demo) 3 (length (fieldNames demo)) [u16 ''temp''] s = Inr s'
     \<and> rowStr s = row_prefix demo 3
          @ trail (field_pairs (data demo) 3 [u16 ''load''] (length (tagNames demo)))
     \<and> rowStr s \<noteq> []
     \<and> rowStr s' = butlast (rowStr s) @ u16 '' ''
     \<and> popped s' = [last (rowStr s)]
     \<and> (\<forall>ts line. encode_row demo ts 3 = Inr (Some line)
          \<longrightarrow> line = butlast (rowStr s) @ u16 '' '' @ to_wstring_int (sint (ts ! 3))
                @ u16 ''\<newline>'')" ..
  then have s: "rowStr s = row_prefix demo 3
          @ trail (field_pairs (data demo) 3 [u16 ''load''] (length (tagNames demo)))"
    and pop: "rowStr s' = butlast (rowStr s) @ u16 '' ''" "popped s' = [last (rowStr s)]"
    by simp_all
  from s prefix have buf: "rowStr s = u16 ''cpu,host=d,core= load=2.000000,''"
    by simp
  from pop buf have "rowStr s' = u16 ''cpu,host=d,core= load=2.000000 ''" "popped s' = u16 '',''"
    by (simp_all add: u16_def)
  with build buf have "row_build demo 3 = Inr s'
     \<and> rowStr s = u16 ''cpu,host=d,core= load=2.000000,''
     \<and> rowStr s' = u16 ''cpu,host=d,core= load=2.000000 ''
     \<and> popped s' = u16 '',''"
    by simp
  then show ?thesis by blast
qed

subsection \<open>C7: the order of the lines\<close>

text \<open>
  C7: when the call succeeds, the output is the concatenation of the lines of the emitted
  rows, taken in strictly ascending order of their row index within the range; each of them
  is the line that the row loop produced for that row.
\<close>

theorem lines_in_row_order:
  assumes "convert2lineprotocol inp = Inr res"
  shows "\<exists>ts. time_column inp = Inr ts
     \<and> res = concat (map (row_text inp ts) (emitted_rows inp ts))
     \<and> sorted_wrt (<) (emitted_rows inp ts)
     \<and> set (emitted_rows inp ts) \<subseteq> {startRow inp..<endRow inp}
     \<and> (\<forall>i \<in> set (emitted_rows inp ts). encode_row inp ts i = Inr (Some (row_text inp ts i)))"
proof -
  from convert_char [OF assms] obtain ts where tc: "time_column inp = Inr ts"
    and res: "res = concat (map (row_text inp ts) [startRow inp..<endRow inp])"
    by blast
  have "concat (map (row_text inp ts) (emitted_rows inp ts))
      = concat (map (row_text inp ts) [startRow inp..<endRow inp])"
    unfolding emitted_rows_def by (rule concat_map_filter_text) (rule row_text_not_emitted)
  moreover have "sorted_wrt (<) (emitted_rows inp ts)"
    by (simp add: emitted_rows_def sorted_wrt_filter)
  moreover have "set (emitted_rows inp ts) \<subseteq> {startRow inp..<endRow inp}"
    by (auto simp: emitted_rows_def)
  moreover have "\<forall>i \<in> set (emitted_rows inp ts). encode_row inp ts i = Inr (Some (row_text inp ts i))"
    by (auto simp: emitted_rows_def row_emitted_def row_text_def split: sum.splits option.splits)
  ultimately show ?thesis using tc res by simp
qed

text \<open>In the example dataset the rows 0, 1 and 3 have a line.\<close>

theorem lines_in_row_order_witness:
  "emitted_rows demo demo_time = [0, 1, 3]
   \<and> convert2lineprotocol demo
       = Inr (row_text demo demo_time 0 @ row_text demo demo_time 1 @ row_text demo demo_time 3)"
proof -
  have upt: "[0..<4] = [0, 1, 2, 3::nat]"
    by (simp add: eval_nat_numeral)
  have "row_emitted demo demo_time 0" "row_emitted demo demo_time 1"
    "\<not> row_emitted demo demo_time 2" "row_emitted demo demo_time 3"
    by (simp_all add: row_emitted_def demo_def demo_time_def eval_simps)
  with upt have rows: "emitted_rows demo demo_time = [0, 1, 3]"
    by (simp add: emitted_rows_def demo_def)
  from lines_in_row_order [OF demo_output] demo_time_column demo_output rows show ?thesis
    by simp
qed

subsection \<open>C8: a field column of an unsupported type\<close>

text \<open>
  C8: the field switch yields no error for a column of an unsupported type, whatever the
  row index: the field is missing. One iteration of the field loop on such a column, with a
  row buffer that is not empty, succeeds, appends nothing for the field, adds one to the
  count of missing fields, and ends in the same state as the iteration on a floating-point
  column whose value at that row is not finite.
\<close>

theorem unsupported_field_is_missing:
  assumes "at cols (colIndx s + 1) = Inr OTHER" and "rowStr s \<noteq> []"
  shows "field_switch OTHER iRow = Inr None
     \<and> (\<exists>s'. field_step cols iRow nF is_last name s = Inr s'
           \<and> nanNum s' = nanNum s + 1
           \<and> rowStr s' = (if is_last then butlast (rowStr s) @ u16 '' '' else rowStr s)
           \<and> addRow s' = (addRow s \<and> int nF \<noteq> nanNum s + 1))
     \<and> (\<forall>cols' xs. at cols' (colIndx s + 1) = Inr (DOUBLE xs) \<and> iRow < length xs
            \<and> \<not> isfinite (xs ! iRow)
          \<longrightarrow> field_step cols' iRow nF is_last name s = field_step cols iRow nF is_last name s)"
proof -
  have sw: "field_switch OTHER iRow = Inr None"
    by (simp add: field_switch_def)
  with assms(1) have skip: "field_text cols iRow (colIndx s + 1) = Inr None"
    by (simp add: field_text_def)
  from field_step_skipped [OF skip, of is_last nF name] assms(2)
  have step: "\<exists>s'. field_step cols iRow nF is_last name s = Inr s'
           \<and> nanNum s' = nanNum s + 1
           \<and> rowStr s' = (if is_last then butlast (rowStr s) @ u16 '' '' else rowStr s)
           \<and> addRow s' = (addRow s \<and> int nF \<noteq> nanNum s + 1)"
    by (auto split: if_splits)
  have "field_step cols' iRow nF is_last name s = field_step cols iRow nF is_last name s"
    if "at cols' (colIndx s + 1) = Inr (DOUBLE xs)" "iRow < length xs" "\<not> isfinite (xs ! iRow)"
    for cols' xs
  proof -
    from that(2,3) have "field_switch (DOUBLE xs) iRow = Inr None"
      by (cases "xs ! iRow") (simp_all add: field_switch_def at_def)
    with that(1) assms(1) sw show ?thesis
      by (simp add: field_step_def Let_def)
  qed
  with sw step show ?thesis by blast
qed

text \<open>A dataset whose only field column has an unsupported type yields the empty text.\<close>

theorem unsupported_field_is_missing_witness:
  "field_step [INT64 [0], OTHER] 0 1 True (u16 ''f'') (row_init (single_field OTHER))
     = field_step [INT64 [0], DOUBLE [NaN]] 0 1 True (u16 ''f'') (row_init (single_field OTHER))
   \<and> convert2lineprotocol (single_field OTHER) = Inr []"
proof -
  let ?s = "row_init (single_field OTHER)"
  have a: "at [INT64 [0], OTHER] (colIndx ?s + 1) = Inr OTHER"
    by (simp add: row_init_def at_def)
  have b: "rowStr ?s \<noteq> []"
    by (simp add: row_init_def)
  have c: "at [INT64 [0], DOUBLE [NaN]] (colIndx ?s + 1) = Inr (DOUBLE [NaN]) \<and> 0 < length [NaN]
      \<and> \<not> isfinite ([NaN] ! 0)"
    by (simp add: row_init_def at_def)
  from unsupported_field_is_missing [OF a b, of 0 1 True "u16 ''f''"] c
  have "field_step [INT64 [0], DOUBLE [NaN]] 0 1 True (u16 ''f'') ?s
      = field_step [INT64 [0], OTHER] 0 1 True (u16 ''f'') ?s"
    by blast
  moreover have "convert2lineprotocol (single_field OTHER) = Inr []"
    by (simp add: single_field_def eval_simps)
  ultimately show ?thesis by simp
qed

subsection \<open>C9: a tag column that is not text\<close>



subsection \<open>C10: what \<open>pop_back\<close> removes\<close>

text \<open>
  C10: \<^verbatim>\<open>pop_back\<close> is never applied to an empty row buffer, neither in the building of a row
  nor in the call as a whole. In a row that is built without error, every character that
  \<^verbatim>\<open>pop_back\<close> removed is a comma or a space; when the row is emitted it is a comma, and the
  row buffer holds the measurement name, the tags and every formatted field pair in full,
  joined by commas and followed by a space.
\<close>

theorem pop_back_removes_separator:
  "convert2lineprotocol inp \<noteq> Inl PopBackOnEmpty
   \<and> (\<forall>iRow. row_build inp iRow \<noteq> Inl PopBackOnEmpty)
   \<and> (\<forall>iRow s. row_build inp iRow = Inr s \<longrightarrow>
         set (popped s) \<subseteq> set (u16 '', '')
         \<and> (addRow s \<longrightarrow> set (popped s) \<subseteq> set (u16 '',''))
         \<and> rowStr s = row_prefix inp iRow
              @ (if row_fields inp iRow = [] then []
                 else join (u16 '','') (row_fields inp iRow) @ u16 '' ''))"
proof -
  have call: "convert2lineprotocol inp \<noteq> Inl PopBackOnEmpty"
    using row_loop_error [of inp _ "startRow inp" "[]"]
    by (auto simp: convert2lineprotocol_def time_column_def at_def
          split: sum.splits if_splits column.splits)
  have row: "set (popped s) \<subseteq> set (u16 '', '')
         \<and> (addRow s \<longrightarrow> set (popped s) \<subseteq> set (u16 '',''))
         \<and> rowStr s = row_prefix inp iRow
              @ (if row_fields inp iRow = [] then []
                 else join (u16 '','') (row_fields inp iRow) @ u16 '' '')"
    if build: "row_build inp iRow = Inr s" for iRow s
  proof (cases "row_fields inp iRow = []")
    case True
    with row_build_popped [OF build] row_prefix_last [of inp iRow]
    have "set (popped s) \<subseteq> set (u16 '', '')" "fieldNames inp = [] \<longrightarrow> popped s = []"
      by (auto simp: u16_def)
    with row_build_char [OF build] True show ?thesis by auto
  next
    case False
    with row_build_popped(1) [OF build] trail_last [OF False, of "row_prefix inp iRow"]
    have "set (popped s) \<subseteq> set (u16 '','')"
      by (auto simp: u16_def)
    with row_build_char(1) [OF build] show ?thesis by (auto simp: u16_def)
  qed
  from call row row_build_error show ?thesis by blast
qed

text \<open>
  Row 3 of the example dataset, whose last field is missing, is emitted: the character
  removed is the comma after the first field.
\<close>

theorem pop_back_removes_separator_witness:
  "\<exists>s. row_build demo 3 = Inr s \<and> addRow s \<and> popped s = u16 '',''
     \<and> set (popped s) \<subseteq> set (u16 '','')
     \<and> rowStr s = u16 ''cpu,host=d,core= load=2.000000 ''"
proof -
  obtain s where build: "row_build demo 3 = Inr s" and s: "addRow s" "popped s = u16 '',''"
    "rowStr s = u16 ''cpu,host=d,core= load=2.000000 ''"
    by (simp add: demo_def eval_simps)
  from pop_back_removes_separator [of demo] build s(1)
  have "set (popped s) \<subseteq> set (u16 '','')"
    by blast
  with build s show ?thesis by blast
qed

end
